theory Spec2Isabelle
  imports Main "HOL-Library.AList"
begin

section \<open>Data model of the pipeline service\<close>

text \<open>
  The request classes of \<^verbatim>\<open>main.py\<close>. The fields \<^verbatim>\<open>Node.id\<close> and \<^verbatim>\<open>Edge.id\<close> are
  named \<open>node_id\<close> and \<open>edge_id\<close>, and \<^verbatim>\<open>Node.type\<close> is \<open>node_type\<close>. The
  position (\<^verbatim>\<open>Dict[str, float]\<close>) and data (\<^verbatim>\<open>Dict[str, Any]\<close>) of a node are never
  read by the service, so the model is polymorphic in their types.
\<close>

record ('p, 'd) Node =
  node_id :: string
  node_type :: string
  position :: 'p
  data :: 'd

record Edge =
  edge_id :: string
  source :: string
  target :: string
  sourceHandle :: "string option"
  targetHandle :: "string option"

record ('p, 'd) PipelineRequest =
  nodes :: "('p, 'd) Node list"
  edges :: "Edge list"

text \<open>The success payload and the \<^verbatim>\<open>HTTPException\<close> of \<^verbatim>\<open>parse_pipeline\<close>.\<close>

record PipelineResponse =
  num_nodes :: nat
  num_edges :: nat
  is_dag :: bool

record HTTPException =
  status_code :: nat
  detail :: string

section \<open>Python dictionaries\<close>

text \<open>
  A Python \<^verbatim>\<open>dict\<close> keeps its keys in insertion order, and assigning to a key that is
  already present keeps the key's place. An association list with
  \<^const>\<open>AList.update\<close> does the same. Reading a missing key raises \<^verbatim>\<open>KeyError\<close>.
\<close>

type_synonym 'v dict = "(string \<times> 'v) list"

datatype exception = KeyError string

definition dict_contains :: "'v dict \<Rightarrow> string \<Rightarrow> bool" where
  "dict_contains d k = (case map_of d k of None \<Rightarrow> False | Some v \<Rightarrow> True)"

definition dict_get :: "'v dict \<Rightarrow> string \<Rightarrow> exception + 'v" where
  "dict_get d k = (case map_of d k of None \<Rightarrow> Inl (KeyError k) | Some v \<Rightarrow> Inr v)"

definition dict_set :: "'v dict \<Rightarrow> string \<Rightarrow> 'v \<Rightarrow> 'v dict" where
  "dict_set d k v = AList.update k v d"

definition dict_keys :: "'v dict \<Rightarrow> string list" where
  "dict_keys d = map fst d"

text \<open>
  \<^verbatim>\<open>str(e)\<close> of a \<^verbatim>\<open>KeyError\<close> is the \<^verbatim>\<open>repr\<close> of the missing key. Python's
  \<^verbatim>\<open>repr\<close> (its choice of quotes and its escapes) is not code of this repository: it is
  the parameter \<open>repr\<close>. Reading a dictionary is the only operation of \<^verbatim>\<open>check_dag\<close>
  that can raise, so \<open>KeyError\<close> is the only exception of the model.
\<close>

fun exception_str :: "(string \<Rightarrow> string) \<Rightarrow> exception \<Rightarrow> string" where
  "exception_str repr (KeyError k) = repr k"

section \<open>The acyclicity checker\<close>

text \<open>Lines 77-79: every node gets an empty adjacency list and in-degree 0.\<close>

fun init_nodes ::
  "('p, 'd) Node list \<Rightarrow> string list dict \<times> int dict \<Rightarrow> string list dict \<times> int dict" where
  "init_nodes [] (graph, in_degree) = (graph, in_degree)"
| "init_nodes (node # rest) (graph, in_degree) =
     init_nodes rest (dict_set graph (node_id node) [], dict_set in_degree (node_id node) 0)"

text \<open>
  Lines 82-85: an edge with both ends in \<open>graph\<close> is appended to the adjacency list of
  its source and counted in the in-degree of its target; any other edge is skipped.
\<close>

fun add_edges ::
  "Edge list \<Rightarrow> string list dict \<times> int dict \<Rightarrow> exception + (string list dict \<times> int dict)" where
  "add_edges [] (graph, in_degree) = Inr (graph, in_degree)"
| "add_edges (edge # rest) (graph, in_degree) =
     (if dict_contains graph (source edge) \<and> dict_contains graph (target edge) then
        (case dict_get graph (source edge) of
           Inl e \<Rightarrow> Inl e
         | Inr targets \<Rightarrow>
             (case dict_get in_degree (target edge) of
                Inl e \<Rightarrow> Inl e
              | Inr c \<Rightarrow>
                  add_edges rest
                    (dict_set graph (source edge) (targets @ [target edge]),
                     dict_set in_degree (target edge) (c + 1))))
      else add_edges rest (graph, in_degree))"

text \<open>Lines 89-92: the queue starts with the keys of in-degree 0, in key order.\<close>

fun seed_queue :: "string list \<Rightarrow> int dict \<Rightarrow> string list \<Rightarrow> exception + string list" where
  "seed_queue [] in_degree queue = Inr queue"
| "seed_queue (k # ks) in_degree queue =
     (case dict_get in_degree k of
        Inl e \<Rightarrow> Inl e
      | Inr c \<Rightarrow> seed_queue ks in_degree (if c = 0 then queue @ [k] else queue))"

text \<open>Lines 102-105: the inner loop over the neighbours of the dequeued node.\<close>

fun reduce_neighbors ::
  "string list \<Rightarrow> int dict \<times> string list \<Rightarrow> exception + (int dict \<times> string list)" where
  "reduce_neighbors [] (in_degree, queue) = Inr (in_degree, queue)"
| "reduce_neighbors (neighbor # rest) (in_degree, queue) =
     (case dict_get in_degree neighbor of
        Inl e \<Rightarrow> Inl e
      | Inr c \<Rightarrow>
          reduce_neighbors rest
            (dict_set in_degree neighbor (c - 1),
             if c - 1 = 0 then queue @ [neighbor] else queue))"

text \<open>
  Lines 96-105: the \<^verbatim>\<open>while queue\<close> loop. The result is \<open>None\<close> when the loop does not
  end, \<open>Some (Inl e)\<close> when it raises \<open>e\<close>, and \<open>Some (Inr n)\<close> when it ends with
  \<^verbatim>\<open>processed_count\<close> equal to \<open>n\<close>.
\<close>

partial_function (option) kahn_loop ::
  "string list dict \<Rightarrow> int dict \<Rightarrow> string list \<Rightarrow> nat \<Rightarrow> (exception + nat) option" where
  "kahn_loop graph in_degree queue processed_count =
     (case queue of
        [] \<Rightarrow> Some (Inr processed_count)
      | current # queue' \<Rightarrow>
          (case dict_get graph current of
             Inl e \<Rightarrow> Some (Inl e)
           | Inr neighbors \<Rightarrow>
               (case reduce_neighbors neighbors (in_degree, queue') of
                  Inl e \<Rightarrow> Some (Inl e)
                | Inr (in_degree', queue'') \<Rightarrow>
                    kahn_loop graph in_degree' queue'' (processed_count + 1))))"

declare kahn_loop.simps [code]

text \<open>Lines 73-105 together: the value of \<^verbatim>\<open>processed_count\<close> when the loop ends.\<close>

definition kahn_count ::
  "('p, 'd) Node list \<Rightarrow> Edge list \<Rightarrow> (exception + nat) option" where
  "kahn_count ns es =
     (case add_edges es (init_nodes ns ([], [])) of
        Inl e \<Rightarrow> Some (Inl e)
      | Inr (graph, in_degree) \<Rightarrow>
          (case seed_queue (dict_keys in_degree) in_degree [] of
             Inl e \<Rightarrow> Some (Inl e)
           | Inr queue \<Rightarrow> kahn_loop graph in_degree queue 0))"

text \<open>\<^verbatim>\<open>check_dag\<close>, lines 64-109.\<close>

definition check_dag ::
  "('p, 'd) Node list \<Rightarrow> Edge list \<Rightarrow> (exception + bool) option" where
  "check_dag ns es =
     (if ns = [] \<or> es = [] then Some (Inr True)
      else
        (case kahn_count ns es of
           None \<Rightarrow> None
         | Some (Inl e) \<Rightarrow> Some (Inl e)
         | Some (Inr processed_count) \<Rightarrow> Some (Inr (processed_count = length ns))))"

section \<open>The analysis operation\<close>

text \<open>
  \<^verbatim>\<open>parse_pipeline\<close>, lines 42-62. The \<^verbatim>\<open>try\<close> block computes the two lengths and calls
  \<^verbatim>\<open>check_dag\<close>; \<^verbatim>\<open>except Exception as e\<close> turns an exception of the block into an
  \<^verbatim>\<open>HTTPException\<close> with status 500 and the message of \<open>e\<close> in its detail.
\<close>

definition parse_pipeline ::
  "(string \<Rightarrow> string) \<Rightarrow> ('p, 'd) PipelineRequest \<Rightarrow>
   (HTTPException + PipelineResponse) option" where
  "parse_pipeline repr pipeline =
     (let n = length (nodes pipeline); m = length (edges pipeline) in
      case check_dag (nodes pipeline) (edges pipeline) of
        None \<Rightarrow> None
      | Some (Inl e) \<Rightarrow>
          Some (Inl \<lparr>status_code = 500,
                     detail = ''Error parsing pipeline: '' @ exception_str repr e\<rparr>)
      | Some (Inr b) \<Rightarrow> Some (Inr \<lparr>num_nodes = n, num_edges = m, is_dag = b\<rparr>))"

section \<open>The graph a request describes\<close>

text \<open>
  The vertices are the node ids; the edges are the submitted edges whose source and target
  are both node ids, as (source, target) pairs in submission order. The graph has a cycle
  when \<open>edge_rel\<close> is not \<^const>\<open>acyclic\<close>.
\<close>

definition valid_edges :: "('p, 'd) Node list \<Rightarrow> Edge list \<Rightarrow> (string \<times> string) list" where
  "valid_edges ns es =
     map (\<lambda>e. (source e, target e))
       [e \<leftarrow> es. source e \<in> node_id ` set ns \<and> target e \<in> node_id ` set ns]"

definition edge_rel :: "('p, 'd) Node list \<Rightarrow> Edge list \<Rightarrow> (string \<times> string) set" where
  "edge_rel ns es = set (valid_edges ns es)"

section \<open>The reference procedure of the specification\<close>

text \<open>
  The procedure as the specification words it (sections 4.1 and 4.2), on functions
  instead of dictionaries: the adjacency of a node id is the list of targets of the valid
  edges leaving it, in submission order; the in-degree of a node id is the number of valid
  edges entering it; the node ids are iterated in insertion order. The queue is seeded
  with the ids of in-degree 0; the front is removed, the counter incremented, the
  in-degree of each neighbour decremented, and a neighbour whose in-degree reaches 0 is
  appended at the back; the loop ends when the queue is empty.
\<close>

fun insertion_order :: "string list \<Rightarrow> string list \<Rightarrow> string list" where
  "insertion_order seen [] = seen"
| "insertion_order seen (x # xs) = insertion_order (if x \<in> set seen then seen else seen @ [x]) xs"

definition spec_node_ids :: "('p, 'd) Node list \<Rightarrow> string list" where
  "spec_node_ids ns = insertion_order [] (map node_id ns)"

definition spec_valid :: "('p, 'd) Node list \<Rightarrow> Edge \<Rightarrow> bool" where
  "spec_valid ns e \<longleftrightarrow> source e \<in> set (spec_node_ids ns) \<and> target e \<in> set (spec_node_ids ns)"

definition spec_adjacency :: "('p, 'd) Node list \<Rightarrow> Edge list \<Rightarrow> string \<Rightarrow> string list" where
  "spec_adjacency ns es u = map target [e \<leftarrow> es. spec_valid ns e \<and> source e = u]"

definition spec_in_degree :: "('p, 'd) Node list \<Rightarrow> Edge list \<Rightarrow> string \<Rightarrow> int" where
  "spec_in_degree ns es v = int (length [e \<leftarrow> es. spec_valid ns e \<and> target e = v])"

fun spec_visit ::
  "string list \<Rightarrow> (string \<Rightarrow> int) \<times> string list \<Rightarrow> (string \<Rightarrow> int) \<times> string list" where
  "spec_visit [] (deg, queue) = (deg, queue)"
| "spec_visit (v # vs) (deg, queue) =
     spec_visit vs (deg(v := deg v - 1), if deg v - 1 = 0 then queue @ [v] else queue)"

partial_function (option) spec_eliminate ::
  "(string \<Rightarrow> string list) \<Rightarrow> (string \<Rightarrow> int) \<Rightarrow> string list \<Rightarrow> nat \<Rightarrow> nat option" where
  "spec_eliminate adj deg queue processed =
     (case queue of
        [] \<Rightarrow> Some processed
      | front # back \<Rightarrow>
          (case spec_visit (adj front) (deg, back) of
             (deg', queue') \<Rightarrow> spec_eliminate adj deg' queue' (processed + 1)))"

declare spec_eliminate.simps [code]

definition spec_seed :: "('p, 'd) Node list \<Rightarrow> Edge list \<Rightarrow> string list" where
  "spec_seed ns es = [v \<leftarrow> spec_node_ids ns. spec_in_degree ns es v = 0]"

definition spec_processed :: "('p, 'd) Node list \<Rightarrow> Edge list \<Rightarrow> nat option" where
  "spec_processed ns es =
     spec_eliminate (spec_adjacency ns es) (spec_in_degree ns es) (spec_seed ns es) 0"

definition spec_is_dag :: "('p, 'd) Node list \<Rightarrow> Edge list \<Rightarrow> bool option" where
  "spec_is_dag ns es =
     (if ns = [] \<or> es = [] then Some True
      else map_option (\<lambda>processed. processed = length ns) (spec_processed ns es))"

section \<open>The states of the two loops\<close>

text \<open>
  To compare the two procedures state by state, each loop is also run for a given number
  of iterations. \<open>loop_body\<close> is one iteration of the \<^verbatim>\<open>while\<close> loop of the code
  (lines 98-105) after the front of the queue has been removed; \<open>kahn_iterate graph k\<close>
  is the state (in-degrees, queue, processed counter) of the code after \<open>k\<close> iterations,
  and \<open>spec_iterate adj k\<close> the state of the reference procedure after \<open>k\<close> of its
  iterations. A loop whose queue is empty stays where it is.
\<close>

definition loop_body ::
  "string list dict \<Rightarrow> string \<Rightarrow> int dict \<times> string list \<Rightarrow>
   exception + (int dict \<times> string list)" where
  "loop_body graph current s =
     (case dict_get graph current of
        Inl e \<Rightarrow> Inl e
      | Inr neighbors \<Rightarrow> reduce_neighbors neighbors s)"

fun kahn_iterate ::
  "string list dict \<Rightarrow> nat \<Rightarrow> int dict \<times> string list \<times> nat \<Rightarrow>
   exception + (int dict \<times> string list \<times> nat)" where
  "kahn_iterate graph 0 s = Inr s"
| "kahn_iterate graph (Suc k) (in_degree, queue, processed_count) =
     (case queue of
        [] \<Rightarrow> Inr (in_degree, queue, processed_count)
      | current # queue' \<Rightarrow>
          (case loop_body graph current (in_degree, queue') of
             Inl e \<Rightarrow> Inl e
           | Inr (in_degree', queue'') \<Rightarrow>
               kahn_iterate graph k (in_degree', queue'', processed_count + 1)))"

fun spec_iterate ::
  "(string \<Rightarrow> string list) \<Rightarrow> nat \<Rightarrow> (string \<Rightarrow> int) \<times> string list \<times> nat \<Rightarrow>
   (string \<Rightarrow> int) \<times> string list \<times> nat" where
  "spec_iterate adj 0 s = s"
| "spec_iterate adj (Suc k) (deg, queue, processed) =
     (case queue of
        [] \<Rightarrow> (deg, queue, processed)
      | front # back \<Rightarrow>
          (case spec_visit (adj front) (deg, back) of
             (deg', queue') \<Rightarrow> spec_iterate adj k (deg', queue', processed + 1)))"

section \<open>Auxiliary notions for the proofs\<close>

text \<open>
  \<open>adj_of\<close> and \<open>indeg_of\<close> describe what \<open>add_edges\<close> adds for a key set \<open>D\<close>.
  For a list \<open>E\<close> of (source, target) pairs, \<open>succs E u\<close> are the targets of \<open>u\<close> and
  \<open>remaining E P v\<close> counts the pairs into \<open>v\<close> whose source is not in \<open>P\<close>.
  \<open>kahn_inv\<close> is the invariant of the \<^verbatim>\<open>while\<close> loop, with \<open>P\<close> the set of nodes
  dequeued so far: the in-degree of \<open>v\<close> is \<open>remaining E P v\<close>, the nodes of in-degree 0
  are exactly those dequeued or queued, the queue has no duplicates, and no dequeued node
  lies on a cycle.
\<close>

definition adj_of :: "Edge list \<Rightarrow> string set \<Rightarrow> string \<Rightarrow> string list" where
  "adj_of es D u = map target [e \<leftarrow> es. source e \<in> D \<and> target e \<in> D \<and> source e = u]"

definition indeg_of :: "Edge list \<Rightarrow> string set \<Rightarrow> string \<Rightarrow> nat" where
  "indeg_of es D v = length [e \<leftarrow> es. source e \<in> D \<and> target e \<in> D \<and> target e = v]"

definition succs :: "(string \<times> string) list \<Rightarrow> string \<Rightarrow> string list" where
  "succs E u = map snd [p \<leftarrow> E. fst p = u]"

definition remaining :: "(string \<times> string) list \<Rightarrow> string set \<Rightarrow> string \<Rightarrow> nat" where
  "remaining E P v = length [p \<leftarrow> E. snd p = v \<and> fst p \<notin> P]"

definition kahn_inv ::
  "string set \<Rightarrow> (string \<times> string) list \<Rightarrow> string list dict \<Rightarrow> int dict \<Rightarrow>
   string list \<Rightarrow> string set \<Rightarrow> bool" where
  "kahn_inv V E g d q P \<longleftrightarrow>
     finite V \<and> set E \<subseteq> V \<times> V \<and>
     (\<forall>u\<in>V. map_of g u = Some (succs E u)) \<and>
     (\<forall>v\<in>V. map_of d v = Some (int (remaining E P v))) \<and>
     distinct q \<and> set q \<inter> P = {} \<and> P \<union> set q = {v \<in> V. remaining E P v = 0} \<and>
     P \<inter> {v. (v, v) \<in> (set E)\<^sup>+} = {}"

definition agrees :: "int dict \<Rightarrow> (string \<Rightarrow> int) \<Rightarrow> bool" where
  "agrees d deg \<longleftrightarrow> (\<forall>v c. map_of d v = Some c \<longrightarrow> deg v = c)"

section \<open>Example requests\<close>

text \<open>Nodes and edges with fixed opaque fields, for the concrete instances below.\<close>

definition node_of :: "string \<Rightarrow> (unit, unit) Node" where
  "node_of i = \<lparr>node_id = i, node_type = ''custom'', position = (), data = ()\<rparr>"

definition edge_of :: "string \<Rightarrow> string \<Rightarrow> Edge" where
  "edge_of s t =
     \<lparr>edge_id = s @ ''-'' @ t, source = s, target = t, sourceHandle = None, targetHandle = None\<rparr>"

section \<open>Dictionaries and the construction of the graph\<close>

lemma dict_get_Some: "map_of d k = Some v \<Longrightarrow> dict_get d k = Inr v"
  by (simp add: dict_get_def)

lemma dict_contains_iff: "dict_contains d k \<longleftrightarrow> k \<in> dom (map_of d)"
  by (auto simp: dict_contains_def split: option.splits)

lemma map_of_dict_set: "map_of (dict_set d k v) = (map_of d)(k \<mapsto> v)"
  by (simp add: dict_set_def update_conv')

lemma keys_dict_set: "k \<in> dom (map_of d) \<Longrightarrow> map fst (dict_set d k v) = map fst d"
  by (simp add: dict_set_def update_keys dom_map_of_conv_image_fst)

lemma distinct_dict_set: "distinct (map fst d) \<Longrightarrow> distinct (map fst (dict_set d k v))"
  by (simp add: dict_set_def distinct_update)

lemma init_nodes_graph:
  "map_of (fst (init_nodes ns (g, d))) k =
     (if k \<in> node_id ` set ns then Some [] else map_of g k)"
  by (induction ns arbitrary: g d) (auto simp: map_of_dict_set)

lemma init_nodes_in_degree:
  "map_of (snd (init_nodes ns (g, d))) k =
     (if k \<in> node_id ` set ns then Some 0 else map_of d k)"
  by (induction ns arbitrary: g d) (auto simp: map_of_dict_set)

lemma init_nodes_distinct:
  "distinct (map fst d) \<Longrightarrow> distinct (map fst (snd (init_nodes ns (g, d))))"
  by (induction ns arbitrary: g d) (auto simp: distinct_dict_set)

lemma add_edges_ok:
  assumes "dom (map_of g) = D" "dom (map_of d) = D"
  shows "\<exists>g' d'. add_edges es (g, d) = Inr (g', d') \<and>
           map fst d' = map fst d \<and>
           (\<forall>u\<in>D. map_of g' u = Some (the (map_of g u) @ adj_of es D u)) \<and>
           (\<forall>v\<in>D. map_of d' v = Some (the (map_of d v) + int (indeg_of es D v)))"
  using assms
proof (induction es arbitrary: g d)
  case Nil
  have "\<forall>u\<in>D. map_of g u = Some (the (map_of g u))" "\<forall>v\<in>D. map_of d v = Some (the (map_of d v))"
    using Nil.prems by (metis domD option.sel)+
  then show ?case by (simp add: adj_of_def indeg_of_def)
next
  case (Cons e es)
  show ?case
  proof (cases "source e \<in> D \<and> target e \<in> D")
    case False
    then have step: "add_edges (e # es) (g, d) = add_edges es (g, d)"
      using Cons.prems by (auto simp: dict_contains_iff)
    have "adj_of (e # es) D = adj_of es D" "indeg_of (e # es) D = indeg_of es D"
      using False by (auto simp: adj_of_def indeg_of_def fun_eq_iff)
    then show ?thesis using Cons.IH[OF Cons.prems] step by simp
  next
    case True
    then obtain ts c where ts: "map_of g (source e) = Some ts" and c: "map_of d (target e) = Some c"
      using Cons.prems by blast
    let ?g = "dict_set g (source e) (ts @ [target e])"
    let ?d = "dict_set d (target e) (c + 1)"
    have step: "add_edges (e # es) (g, d) = add_edges es (?g, ?d)"
      using True Cons.prems ts c by (simp add: dict_contains_iff dict_get_Some)
    have dg: "dom (map_of ?g) = D" and dd: "dom (map_of ?d) = D"
      using True Cons.prems by (auto simp: map_of_dict_set)
    have keys: "map fst ?d = map fst d"
      using True Cons.prems by (simp add: keys_dict_set)
    from Cons.IH[OF dg dd] obtain g' d' where r: "add_edges es (?g, ?d) = Inr (g', d')"
      and k: "map fst d' = map fst ?d"
      and G: "\<forall>u\<in>D. map_of g' u = Some (the (map_of ?g u) @ adj_of es D u)"
      and I: "\<forall>v\<in>D. map_of d' v = Some (the (map_of ?d v) + int (indeg_of es D v))"
      by blast
    have G': "\<forall>u\<in>D. map_of g' u = Some (the (map_of g u) @ adj_of (e # es) D u)"
      using G True ts by (auto simp: map_of_dict_set adj_of_def)
    have I': "\<forall>v\<in>D. map_of d' v = Some (the (map_of d v) + int (indeg_of (e # es) D v))"
      using I True c by (auto simp: map_of_dict_set indeg_of_def)
    show ?thesis using step r k keys G' I' by simp
  qed
qed

lemma seed_queue_ok:
  "set ks \<subseteq> dom (map_of d) \<Longrightarrow>
   seed_queue ks d q = Inr (q @ [k \<leftarrow> ks. map_of d k = Some 0])"
proof (induction ks arbitrary: q)
  case Nil
  then show ?case by simp
next
  case (Cons k ks)
  then obtain c where "map_of d k = Some c" by auto
  then show ?case using Cons by (auto simp: dict_get_Some)
qed

lemma reduce_neighbors_ok:
  assumes "\<forall>v\<in>set nbs. \<exists>c. map_of d v = Some c \<and> int (count_list nbs v) \<le> c"
  shows "\<exists>d' a. reduce_neighbors nbs (d, q) = Inr (d', q @ a) \<and> distinct a \<and>
           set a = {v \<in> set nbs. map_of d v = Some (int (count_list nbs v))} \<and>
           (\<forall>v. map_of d' v = map_option (\<lambda>c. c - int (count_list nbs v)) (map_of d v))"
  using assms
proof (induction nbs arbitrary: d q)
  case Nil
  then show ?case by (auto simp: option.map_ident)
next
  case (Cons nb nbs)
  then obtain c where c: "map_of d nb = Some c" and cge: "int (count_list nbs nb) + 1 \<le> c"
    by auto
  let ?d = "dict_set d nb (c - 1)"
  let ?q = "if c - 1 = 0 then q @ [nb] else q"
  have step: "reduce_neighbors (nb # nbs) (d, q) = reduce_neighbors nbs (?d, ?q)"
    using c by (simp add: dict_get_Some)
  have pre: "\<forall>v\<in>set nbs. \<exists>c. map_of ?d v = Some c \<and> int (count_list nbs v) \<le> c"
    using Cons.prems c cge by (auto simp: map_of_dict_set)
  from Cons.IH[OF pre, of ?q] obtain d' a where
    r: "reduce_neighbors nbs (?d, ?q) = Inr (d', ?q @ a)" and da: "distinct a"
    and sa: "set a = {v \<in> set nbs. map_of ?d v = Some (int (count_list nbs v))}"
    and D: "\<forall>v. map_of d' v = map_option (\<lambda>c. c - int (count_list nbs v)) (map_of ?d v)"
    by blast
  let ?a = "(if c - 1 = 0 then [nb] else []) @ a"
  have r': "reduce_neighbors (nb # nbs) (d, q) = Inr (d', q @ ?a)"
    using step r by simp
  have nbnot: "c - 1 = 0 \<Longrightarrow> nb \<notin> set nbs"
    using cge by (simp add: count_list_0_iff[symmetric])
  have da': "distinct ?a" using da sa nbnot by auto
  have mem: "v \<in> set ?a \<longleftrightarrow>
      v \<in> set (nb # nbs) \<and> map_of d v = Some (int (count_list (nb # nbs) v))" for v
  proof (cases "v = nb")
    case True
    have "nb \<in> set a \<longleftrightarrow> nb \<in> set nbs \<and> c - 1 = int (count_list nbs nb)"
      using sa by (simp add: map_of_dict_set)
    moreover have "count_list nbs nb = 0 \<longleftrightarrow> nb \<notin> set nbs"
      by (rule count_list_0_iff)
    ultimately have "v \<in> set ?a \<longleftrightarrow> c - 1 = int (count_list nbs nb)"
      using True cge by (cases "c - 1 = 0") auto
    then show ?thesis using True c by auto
  next
    case False
    then have "v \<in> set ?a \<longleftrightarrow> v \<in> set nbs \<and> map_of d v = Some (int (count_list nbs v))"
      using sa by (simp add: map_of_dict_set)
    then show ?thesis using False by simp
  qed
  have sa': "set ?a = {v \<in> set (nb # nbs). map_of d v = Some (int (count_list (nb # nbs) v))}"
    using mem by blast
  have D': "\<forall>v. map_of d' v = map_option (\<lambda>c. c - int (count_list (nb # nbs) v)) (map_of d v)"
    using D c by (auto simp: map_of_dict_set)
  show ?case using r' da' sa' D' by blast
qed

lemma count_succs:
  "count_list (succs E c) v = length [p \<leftarrow> E. fst p = c \<and> snd p = v]"
  unfolding succs_def by (induction E) auto

lemma remaining_insert:
  "c \<notin> P \<Longrightarrow> remaining E P v = remaining E (insert c P) v + count_list (succs E c) v"
  unfolding count_succs unfolding remaining_def by (induction E) auto

lemma remaining_zero_iff: "remaining E P v = 0 \<longleftrightarrow> (\<forall>p\<in>set E. snd p = v \<longrightarrow> fst p \<in> P)"
  unfolding remaining_def by (auto simp: filter_empty_conv)

lemma set_succs: "set (succs E c) = {v. (c, v) \<in> set E}"
  unfolding succs_def by force

lemma on_cycle_pred:
  assumes "(v, v) \<in> R\<^sup>+"
  shows "\<exists>u. (u, v) \<in> R \<and> (u, u) \<in> R\<^sup>+"
proof -
  from tranclD2[OF assms] obtain u where "(v, u) \<in> R\<^sup>*" "(u, v) \<in> R" by blast
  then have "(u, u) \<in> R\<^sup>+" by (meson rtrancl_into_trancl2)
  with \<open>(u, v) \<in> R\<close> show ?thesis by blast
qed

lemma kahn_inv_step:
  assumes inv: "kahn_inv V E g d (c # q) P"
  shows "c \<in> V \<and> c \<notin> P \<and> dict_get g c = Inr (succs E c) \<and>
         (\<exists>d' q'. reduce_neighbors (succs E c) (d, q) = Inr (d', q') \<and>
                  kahn_inv V E g d' q' (insert c P))"
proof -
  let ?nbs = "succs E c"
  from inv have fin: "finite V" and sub: "set E \<subseteq> V \<times> V"
    and G: "\<forall>u\<in>V. map_of g u = Some (succs E u)"
    and D: "\<forall>v\<in>V. map_of d v = Some (int (remaining E P v))"
    and dq: "distinct (c # q)" and qP: "set (c # q) \<inter> P = {}"
    and Z: "P \<union> set (c # q) = {v \<in> V. remaining E P v = 0}"
    and C: "P \<inter> {v. (v, v) \<in> (set E)\<^sup>+} = {}"
    unfolding kahn_inv_def by blast+
  have old0: "v \<in> P \<union> set (c # q) \<longleftrightarrow> v \<in> V \<and> remaining E P v = 0" for v
    using arg_cong[OF Z, of "\<lambda>S. v \<in> S"] by simp
  have cV: "c \<in> V" and c0: "remaining E P c = 0" using old0[of c] by auto
  have cP: "c \<notin> P" using qP by auto
  have cq: "c \<notin> set q" using dq by simp
  have nbsV: "set ?nbs \<subseteq> V" using sub by (auto simp: set_succs)
  have split: "remaining E P v = remaining E (insert c P) v + count_list ?nbs v" for v
    by (rule remaining_insert[OF cP])
  have pre: "\<forall>v\<in>set ?nbs. \<exists>k. map_of d v = Some k \<and> int (count_list ?nbs v) \<le> k"
  proof
    fix v assume "v \<in> set ?nbs"
    then have "map_of d v = Some (int (remaining E P v))" using nbsV D by blast
    moreover have "int (count_list ?nbs v) \<le> int (remaining E P v)" using split[of v] by simp
    ultimately show "\<exists>k. map_of d v = Some k \<and> int (count_list ?nbs v) \<le> k" by blast
  qed
  from reduce_neighbors_ok[OF pre, of q] obtain d' a where
    r: "reduce_neighbors ?nbs (d, q) = Inr (d', q @ a)" and da: "distinct a"
    and sa: "set a = {v \<in> set ?nbs. map_of d v = Some (int (count_list ?nbs v))}"
    and D': "\<forall>v. map_of d' v = map_option (\<lambda>k. k - int (count_list ?nbs v)) (map_of d v)"
    by blast
  have D'': "\<forall>v\<in>V. map_of d' v = Some (int (remaining E (insert c P) v))"
  proof
    fix v assume "v \<in> V"
    then have "map_of d' v = Some (int (remaining E P v) - int (count_list ?nbs v))"
      using D D' by simp
    then show "map_of d' v = Some (int (remaining E (insert c P) v))" using split[of v] by simp
  qed
  have a_iff: "v \<in> set a \<longleftrightarrow> v \<in> V \<and> 0 < remaining E P v \<and> remaining E (insert c P) v = 0" for v
  proof
    assume "v \<in> set a"
    then have m: "v \<in> set ?nbs" and e: "map_of d v = Some (int (count_list ?nbs v))"
      using sa by auto
    have v: "v \<in> V" using m nbsV by blast
    then have "remaining E P v = count_list ?nbs v" using e D by simp
    moreover have "count_list ?nbs v \<noteq> 0" using m by (simp add: count_list_0_iff)
    ultimately show "v \<in> V \<and> 0 < remaining E P v \<and> remaining E (insert c P) v = 0"
      using split[of v] v by simp
  next
    assume h: "v \<in> V \<and> 0 < remaining E P v \<and> remaining E (insert c P) v = 0"
    then have e: "remaining E P v = count_list ?nbs v" using split[of v] by simp
    then have "count_list ?nbs v \<noteq> 0" using h by simp
    then have "v \<in> set ?nbs" by (simp add: count_list_0_iff)
    moreover have "map_of d v = Some (int (count_list ?nbs v))" using h D e by simp
    ultimately show "v \<in> set a" using sa by simp
  qed
  have mono: "remaining E P v = 0 \<Longrightarrow> remaining E (insert c P) v = 0" for v
    using split[of v] by simp
  have apos: "v \<in> set a \<Longrightarrow> remaining E P v \<noteq> 0" for v
    using a_iff[of v] by simp
  have zero: "v \<in> P \<or> v = c \<or> v \<in> set q \<Longrightarrow> remaining E P v = 0" for v
    using old0[of v] by auto
  have a_fresh: "v \<in> set a \<Longrightarrow> v \<notin> P \<and> v \<noteq> c \<and> v \<notin> set q" for v
    using apos[of v] zero[of v] by auto
  have "set q \<inter> set a = {}" using a_fresh by blast
  then have dist: "distinct (q @ a)" using dq da by simp
  have disj: "set (q @ a) \<inter> insert c P = {}"
  proof -
    have "set a \<inter> insert c P = {}" using a_fresh by blast
    moreover have "set q \<inter> insert c P = {}" using qP cq by auto
    ultimately show ?thesis by auto
  qed
  have Z': "insert c P \<union> set (q @ a) = {v \<in> V. remaining E (insert c P) v = 0}"
  proof (rule set_eqI)
    fix v
    have "v \<in> insert c P \<union> set (q @ a) \<longleftrightarrow> v \<in> P \<union> set (c # q) \<or> v \<in> set a" by auto
    also have "\<dots> \<longleftrightarrow> (v \<in> V \<and> remaining E P v = 0) \<or>
                       (v \<in> V \<and> 0 < remaining E P v \<and> remaining E (insert c P) v = 0)"
      using old0 a_iff by simp
    also have "\<dots> \<longleftrightarrow> v \<in> V \<and> remaining E (insert c P) v = 0" using mono[of v] by auto
    finally show "v \<in> insert c P \<union> set (q @ a) \<longleftrightarrow> v \<in> {v \<in> V. remaining E (insert c P) v = 0}"
      by simp
  qed
  have cC: "(c, c) \<notin> (set E)\<^sup>+"
  proof
    assume "(c, c) \<in> (set E)\<^sup>+"
    from on_cycle_pred[OF this] obtain u where u: "(u, c) \<in> set E" "(u, u) \<in> (set E)\<^sup>+"
      by blast
    from c0 u(1) have "u \<in> P" by (auto simp: remaining_zero_iff)
    with u(2) C show False by blast
  qed
  have C': "insert c P \<inter> {v. (v, v) \<in> (set E)\<^sup>+} = {}" using C cC by auto
  have "kahn_inv V E g d' (q @ a) (insert c P)"
    unfolding kahn_inv_def using fin sub G D'' dist disj Z' C' by blast
  moreover have "dict_get g c = Inr ?nbs" using G cV by (simp add: dict_get_Some)
  ultimately show ?thesis using cV cP r by blast
qed

lemma kahn_inv_subset: "kahn_inv V E g d q P \<Longrightarrow> P \<subseteq> V \<and> finite V"
  unfolding kahn_inv_def by blast

lemma kahn_loop_ok:
  "kahn_inv V E g d q P \<Longrightarrow>
   \<exists>d' P'. kahn_inv V E g d' [] P' \<and> kahn_loop g d q (card P) = Some (Inr (card P'))"
proof (induction "card (V - P)" arbitrary: d q P rule: less_induct)
  case less
  show ?case
  proof (cases q)
    case Nil
    then have "kahn_loop g d q (card P) = Some (Inr (card P))"
      by (subst kahn_loop.simps) simp
    then show ?thesis using less.prems Nil by blast
  next
    case (Cons c q0)
    from kahn_inv_step[OF less.prems[unfolded Cons]] obtain d1 q1 where
      cV: "c \<in> V" and cP: "c \<notin> P" and g: "dict_get g c = Inr (succs E c)"
      and r: "reduce_neighbors (succs E c) (d, q0) = Inr (d1, q1)"
      and inv1: "kahn_inv V E g d1 q1 (insert c P)"
      by blast
    from kahn_inv_subset[OF less.prems] have PV: "P \<subseteq> V" and fin: "finite V" by auto
    have finP: "finite P" using PV fin by (rule finite_subset)
    have "V - insert c P \<subset> V - P" using cV cP by blast
    then have dec: "card (V - insert c P) < card (V - P)"
      using fin by (simp add: psubset_card_mono)
    from less.hyps[OF dec inv1] obtain d' P' where
      fin': "kahn_inv V E g d' [] P'"
      and res: "kahn_loop g d1 q1 (card (insert c P)) = Some (Inr (card P'))"
      by blast
    have "card (insert c P) = card P + 1" using finP cP by simp
    then have "kahn_loop g d q (card P) = Some (Inr (card P'))"
      using res g r Cons by (subst kahn_loop.simps) simp
    then show ?thesis using fin' by blast
  qed
qed

lemma kahn_inv_final:
  assumes "kahn_inv V E g d [] P"
  shows "P \<subseteq> V \<and> (P = V \<longleftrightarrow> acyclic (set E))"
proof -
  from assms have fin: "finite V" and sub: "set E \<subseteq> V \<times> V"
    and Zraw: "P \<union> set [] = {v \<in> V. remaining E P v = 0}"
    and C: "P \<inter> {v. (v, v) \<in> (set E)\<^sup>+} = {}"
    unfolding kahn_inv_def by blast+
  have Z: "v \<in> P \<longleftrightarrow> v \<in> V \<and> remaining E P v = 0" for v
    using arg_cong[OF Zraw, of "\<lambda>S. v \<in> S"] by simp
  have PV: "P \<subseteq> V" using Z by blast
  have "P = V" if ac: "acyclic (set E)"
  proof (rule ccontr)
    assume "P \<noteq> V"
    then obtain x where x: "x \<in> V - P" using PV by blast
    have "wf (set E)" using ac by (simp add: finite_acyclic_wf)
    from wfE_min[OF this x] obtain z where z: "z \<in> V - P"
      and zmin: "\<And>y. (y, z) \<in> set E \<Longrightarrow> y \<notin> V - P" by blast
    have "remaining E P z \<noteq> 0" using z Z[of z] by simp
    then obtain p where p: "p \<in> set E" "snd p = z" "fst p \<notin> P"
      by (auto simp: remaining_zero_iff)
    then have "(fst p, z) \<in> set E" by auto
    moreover from this have "fst p \<in> V" using sub by blast
    ultimately show False using zmin p(3) by blast
  qed
  moreover have "acyclic (set E)" if "P = V"
  proof (rule acyclicI, rule allI, rule notI)
    fix x assume x: "(x, x) \<in> (set E)\<^sup>+"
    then have "x \<in> V" using trancl_subset_Sigma[OF sub] by blast
    then show False using that C x by blast
  qed
  ultimately show ?thesis using PV by blast
qed

lemma succs_valid_edges: "succs (valid_edges ns es) u = adj_of es (node_id ` set ns) u"
  unfolding succs_def valid_edges_def adj_of_def by (induction es) auto

lemma remaining_valid_edges: "remaining (valid_edges ns es) {} v = indeg_of es (node_id ` set ns) v"
  unfolding remaining_def valid_edges_def indeg_of_def by (induction es) auto

lemma valid_edges_sub: "set (valid_edges ns es) \<subseteq> node_id ` set ns \<times> node_id ` set ns"
  unfolding valid_edges_def by auto

lemma set_insertion_order: "set (insertion_order seen xs) = set seen \<union> set xs"
  by (induction xs arbitrary: seen) auto

lemma init_nodes_keys:
  "map fst (snd (init_nodes ns (g, d))) = insertion_order (map fst d) (map node_id ns)"
  by (induction ns arbitrary: g d) (auto simp: dict_set_def update_keys)

lemma set_spec_node_ids: "set (spec_node_ids ns) = node_id ` set ns"
  by (simp add: spec_node_ids_def set_insertion_order)

lemma spec_adjacency_adj_of: "spec_adjacency ns es u = adj_of es (node_id ` set ns) u"
  unfolding spec_adjacency_def adj_of_def spec_valid_def set_spec_node_ids
  by (rule arg_cong[where f = "map target"], rule filter_cong) auto

lemma spec_in_degree_indeg_of: "spec_in_degree ns es v = int (indeg_of es (node_id ` set ns) v)"
  unfolding spec_in_degree_def indeg_of_def spec_valid_def set_spec_node_ids
  by (rule arg_cong[where f = "\<lambda>xs. int (length xs)"], rule filter_cong) auto

lemma visit_refines:
  "agrees d deg \<Longrightarrow> reduce_neighbors nbs (d, q) = Inr (d', q') \<Longrightarrow>
   \<exists>deg'. spec_visit nbs (deg, q) = (deg', q') \<and> agrees d' deg'"
proof (induction nbs arbitrary: d deg q)
  case Nil
  then show ?case by auto
next
  case (Cons nb nbs)
  from Cons.prems(2) obtain c where c: "map_of d nb = Some c"
    by (auto simp: dict_get_def split: option.splits)
  then have dc: "deg nb = c" using Cons.prems(1) by (simp add: agrees_def)
  let ?d = "dict_set d nb (c - 1)"
  let ?q = "if c - 1 = 0 then q @ [nb] else q"
  have r: "reduce_neighbors nbs (?d, ?q) = Inr (d', q')"
    using Cons.prems(2) c by (simp add: dict_get_Some)
  have ag: "agrees ?d (deg(nb := c - 1))"
    using Cons.prems(1) by (auto simp: agrees_def map_of_dict_set)
  from Cons.IH[OF ag r] obtain deg' where
    "spec_visit nbs (deg(nb := c - 1), ?q) = (deg', q')" "agrees d' deg'" by blast
  then show ?case using dc by auto
qed

lemma eliminate_refines:
  "kahn_inv V E g d q P \<Longrightarrow> agrees d deg \<Longrightarrow> (\<forall>u\<in>V. adj u = succs E u) \<Longrightarrow>
   kahn_loop g d q n = map_option Inr (spec_eliminate adj deg q n)"
proof (induction "card (V - P)" arbitrary: d q P deg n rule: less_induct)
  case less
  show ?case
  proof (cases q)
    case Nil
    have "kahn_loop g d [] n = Some (Inr n)" by (subst kahn_loop.simps) simp
    moreover have "spec_eliminate adj deg [] n = Some n" by (subst spec_eliminate.simps) simp
    ultimately show ?thesis using Nil by simp
  next
    case (Cons c q0)
    from kahn_inv_step[OF less.prems(1)[unfolded Cons]] obtain d1 q1 where
      cV: "c \<in> V" and cP: "c \<notin> P" and g: "dict_get g c = Inr (succs E c)"
      and r: "reduce_neighbors (succs E c) (d, q0) = Inr (d1, q1)"
      and inv1: "kahn_inv V E g d1 q1 (insert c P)"
      by blast
    from visit_refines[OF less.prems(2) r] obtain deg1 where
      v: "spec_visit (succs E c) (deg, q0) = (deg1, q1)" and ag1: "agrees d1 deg1" by blast
    from kahn_inv_subset[OF less.prems(1)] have fin: "finite V" by simp
    have "V - insert c P \<subset> V - P" using cV cP by blast
    then have dec: "card (V - insert c P) < card (V - P)"
      using fin by (simp add: psubset_card_mono)
    have ih: "kahn_loop g d1 q1 (n + 1) = map_option Inr (spec_eliminate adj deg1 q1 (n + 1))"
      by (rule less.hyps[OF dec inv1 ag1 less.prems(3)])
    have a: "adj c = succs E c" using less.prems(3) cV by simp
    have "kahn_loop g d (c # q0) n = kahn_loop g d1 q1 (n + 1)"
      using g r by (subst kahn_loop.simps) simp
    moreover have "spec_eliminate adj deg (c # q0) n = spec_eliminate adj deg1 q1 (n + 1)"
      using a v by (subst spec_eliminate.simps) simp
    ultimately show ?thesis using ih Cons by simp
  qed
qed

lemma build_ok:
  "\<exists>g d. add_edges es (init_nodes ns ([], [])) = Inr (g, d) \<and>
     dict_keys d = spec_node_ids ns \<and> dom (map_of d) = node_id ` set ns \<and>
     distinct (dict_keys d) \<and>
     (\<forall>u\<in>node_id ` set ns. map_of g u = Some (succs (valid_edges ns es) u)) \<and>
     (\<forall>v\<in>node_id ` set ns. map_of d v = Some (int (remaining (valid_edges ns es) {} v)))"
proof -
  let ?V = "node_id ` set ns"
  let ?E = "valid_edges ns es"
  obtain g0 d0 where i: "init_nodes ns ([], []) = (g0, d0)" by (cases "init_nodes ns ([], [])")
  have g0: "map_of g0 k = (if k \<in> ?V then Some [] else None)" for k
    using init_nodes_graph[of ns "[]" "[]" k] i by simp
  have d0: "map_of d0 k = (if k \<in> ?V then Some 0 else None)" for k
    using init_nodes_in_degree[of ns "[]" "[]" k] i by simp
  have dist0: "distinct (map fst d0)"
    using init_nodes_distinct[of "[]" ns "[]"] i by simp
  have keys0: "map fst d0 = spec_node_ids ns"
    using init_nodes_keys[of ns "[]" "[]"] i by (simp add: spec_node_ids_def)
  have domg: "dom (map_of g0) = ?V" using g0 by (auto simp: dom_def)
  have domd: "dom (map_of d0) = ?V" using d0 by (auto simp: dom_def)
  from add_edges_ok[OF domg domd, of es] obtain g d where
    a: "add_edges es (g0, d0) = Inr (g, d)" and keys: "map fst d = map fst d0"
    and G: "\<forall>u\<in>?V. map_of g u = Some (the (map_of g0 u) @ adj_of es ?V u)"
    and D: "\<forall>v\<in>?V. map_of d v = Some (the (map_of d0 v) + int (indeg_of es ?V v))"
    by blast
  have G': "\<forall>u\<in>?V. map_of g u = Some (succs ?E u)"
    using G g0 by (simp add: succs_valid_edges)
  have D': "\<forall>v\<in>?V. map_of d v = Some (int (remaining ?E {} v))"
    using D d0 by (simp add: remaining_valid_edges)
  have "fst ` set d = fst ` set d0" using keys by (metis set_map)
  then have domd': "dom (map_of d) = ?V"
    using domd by (simp add: dom_map_of_conv_image_fst)
  show ?thesis
    using i a keys keys0 dist0 domd' G' D' by (simp add: dict_keys_def)
qed

lemma start_inv:
  assumes "dict_keys d = spec_node_ids ns" "dom (map_of d) = node_id ` set ns"
    "distinct (dict_keys d)"
    "\<forall>u\<in>node_id ` set ns. map_of g u = Some (succs (valid_edges ns es) u)"
    "\<forall>v\<in>node_id ` set ns. map_of d v = Some (int (remaining (valid_edges ns es) {} v))"
  shows "seed_queue (dict_keys d) d [] = Inr [k \<leftarrow> dict_keys d. map_of d k = Some 0]"
    and "kahn_inv (node_id ` set ns) (valid_edges ns es) g d
           [k \<leftarrow> dict_keys d. map_of d k = Some 0] {}"
proof -
  let ?V = "node_id ` set ns"
  let ?E = "valid_edges ns es"
  let ?q = "[k \<leftarrow> dict_keys d. map_of d k = Some 0]"
  have "set (dict_keys d) \<subseteq> dom (map_of d)"
    by (simp add: dict_keys_def dom_map_of_conv_image_fst)
  from seed_queue_ok[OF this, of "[]"]
  show "seed_queue (dict_keys d) d [] = Inr ?q" by simp
  have keyset: "set (dict_keys d) = ?V" using assms(1) by (simp add: set_spec_node_ids)
  have dq: "distinct ?q" using assms(3) by simp
  have sq: "set ?q = {v \<in> ?V. remaining ?E {} v = 0}"
  proof (rule set_eqI)
    fix v
    have "v \<in> set ?q \<longleftrightarrow> v \<in> ?V \<and> map_of d v = Some 0"
      using keyset by simp
    also have "\<dots> \<longleftrightarrow> v \<in> ?V \<and> remaining ?E {} v = 0" using assms(5) by auto
    finally show "v \<in> set ?q \<longleftrightarrow> v \<in> {v \<in> ?V. remaining ?E {} v = 0}" by simp
  qed
  show "kahn_inv ?V ?E g d ?q {}"
    unfolding kahn_inv_def using assms(4,5) dq sq valid_edges_sub[of ns es] by simp
qed

lemma kahn_count_char:
  "\<exists>P. P \<subseteq> node_id ` set ns \<and> (P = node_id ` set ns \<longleftrightarrow> acyclic (edge_rel ns es)) \<and>
       kahn_count ns es = Some (Inr (card P))"
proof -
  let ?V = "node_id ` set ns"
  let ?E = "valid_edges ns es"
  from build_ok[of es ns] obtain g d where
    a: "add_edges es (init_nodes ns ([], [])) = Inr (g, d)"
    and k: "dict_keys d = spec_node_ids ns" and dm: "dom (map_of d) = ?V"
    and di: "distinct (dict_keys d)"
    and G: "\<forall>u\<in>?V. map_of g u = Some (succs ?E u)"
    and D: "\<forall>v\<in>?V. map_of d v = Some (int (remaining ?E {} v))"
    apply (elim exE conjE)
    subgoal premises p for g d using p(2-) by (rule p(1))
    done
  let ?q = "[k \<leftarrow> dict_keys d. map_of d k = Some 0]"
  note st = start_inv[OF k dm di G D]
  from kahn_loop_ok[OF st(2)] obtain d' P where
    fin: "kahn_inv ?V ?E g d' [] P" and r: "kahn_loop g d ?q 0 = Some (Inr (card P))"
    by auto
  have "kahn_count ns es = Some (Inr (card P))"
    unfolding kahn_count_def using a st(1) r by simp
  then show ?thesis using kahn_inv_final[OF fin] unfolding edge_rel_def by blast
qed

lemma check_dag_char:
  assumes "ns \<noteq> []" "es \<noteq> []"
  shows "check_dag ns es = Some (Inr (distinct (map node_id ns) \<and> acyclic (edge_rel ns es)))"
proof -
  let ?V = "node_id ` set ns"
  from kahn_count_char[of ns es] obtain P where PV: "P \<subseteq> ?V"
    and ac: "P = ?V \<longleftrightarrow> acyclic (edge_rel ns es)"
    and k: "kahn_count ns es = Some (Inr (card P))" by blast
  have fin: "finite ?V" by simp
  have le1: "card P \<le> card ?V" using PV fin by (rule card_mono[rotated])
  have le2: "card ?V \<le> length ns" using card_length[of "map node_id ns"] by simp
  have "card P = length ns \<longleftrightarrow> distinct (map node_id ns) \<and> P = ?V"
  proof
    assume e: "card P = length ns"
    then have cv: "card ?V = length ns" using le1 le2 by simp
    then have "distinct (map node_id ns)" using card_distinct[of "map node_id ns"] by simp
    moreover have "P = ?V" using card_subset_eq[OF fin PV] e cv by simp
    ultimately show "distinct (map node_id ns) \<and> P = ?V" by simp
  next
    assume h: "distinct (map node_id ns) \<and> P = ?V"
    then show "card P = length ns" using distinct_card[of "map node_id ns"] by simp
  qed
  then show ?thesis unfolding check_dag_def using assms k ac by simp
qed

lemma kahn_count_refines: "kahn_count ns es = map_option Inr (spec_processed ns es)"
proof -
  let ?V = "node_id ` set ns"
  let ?E = "valid_edges ns es"
  from build_ok[of es ns] obtain g d where
    a: "add_edges es (init_nodes ns ([], [])) = Inr (g, d)"
    and k: "dict_keys d = spec_node_ids ns" and dm: "dom (map_of d) = ?V"
    and di: "distinct (dict_keys d)"
    and G: "\<forall>u\<in>?V. map_of g u = Some (succs ?E u)"
    and D: "\<forall>v\<in>?V. map_of d v = Some (int (remaining ?E {} v))"
    apply (elim exE conjE)
    subgoal premises p for g d using p(2-) by (rule p(1))
    done
  let ?q = "[k \<leftarrow> dict_keys d. map_of d k = Some 0]"
  note st = start_inv[OF k dm di G D]
  have ag: "agrees d (spec_in_degree ns es)"
    unfolding agrees_def
  proof (intro allI impI)
    fix v c assume m: "map_of d v = Some c"
    then have "v \<in> ?V" using dm by blast
    then have "c = int (remaining ?E {} v)" using bspec[OF D, of v] m by simp
    then show "spec_in_degree ns es v = c"
      by (simp add: spec_in_degree_indeg_of remaining_valid_edges)
  qed
  have ad: "\<forall>u\<in>?V. spec_adjacency ns es u = succs ?E u"
    by (simp add: spec_adjacency_adj_of succs_valid_edges)
  have q: "?q = [v \<leftarrow> spec_node_ids ns. spec_in_degree ns es v = 0]"
    unfolding k
  proof (rule filter_cong[OF refl])
    fix v assume "v \<in> set (spec_node_ids ns)"
    then have "v \<in> ?V" by (simp add: set_spec_node_ids)
    then show "(map_of d v = Some 0) = (spec_in_degree ns es v = 0)"
      using bspec[OF D, of v] by (simp add: spec_in_degree_indeg_of remaining_valid_edges)
  qed
  have "kahn_count ns es = kahn_loop g d ?q 0"
    unfolding kahn_count_def using a st(1) by simp
  also have "\<dots> = map_option Inr (spec_eliminate (spec_adjacency ns es) (spec_in_degree ns es) ?q 0)"
    by (rule eliminate_refines[OF st(2) ag ad])
  finally show ?thesis unfolding spec_processed_def spec_seed_def q .
qed

lemma check_dag_total: "\<exists>b. check_dag ns es = Some (Inr b)"
proof (cases "ns = [] \<or> es = []")
  case True
  then have "check_dag ns es = Some (Inr True)" by (simp add: check_dag_def)
  then show ?thesis by blast
next
  case False
  then show ?thesis using check_dag_char[of ns es] by simp
qed


lemma valid_edges_pairs:
  "valid_edges ns es =
     [p \<leftarrow> map (\<lambda>e. (source e, target e)) es.
        fst p \<in> set (map node_id ns) \<and> snd p \<in> set (map node_id ns)]"
  unfolding valid_edges_def by (induction es) auto

section \<open>The two loops, state by state\<close>

lemma kahn_loop_unfold:
  "kahn_loop graph in_degree queue n =
     (case queue of
        [] \<Rightarrow> Some (Inr n)
      | current # queue' \<Rightarrow>
          (case loop_body graph current (in_degree, queue') of
             Inl e \<Rightarrow> Some (Inl e)
           | Inr (in_degree', queue'') \<Rightarrow> kahn_loop graph in_degree' queue'' (n + 1)))"
  by (subst kahn_loop.simps) (simp add: loop_body_def split: list.splits sum.splits)

lemma kahn_loop_iterate:
  "kahn_iterate g k (d, q, n) = Inr (d', q', n') \<Longrightarrow>
   kahn_loop g d q n = kahn_loop g d' q' n'"
proof (induction k arbitrary: d q n)
  case 0
  then show ?case by simp
next
  case (Suc k)
  show ?case
  proof (cases q)
    case Nil
    then show ?thesis using Suc.prems by simp
  next
    case (Cons c q0)
    from Suc.prems Cons obtain d1 q1 where
      b: "loop_body g c (d, q0) = Inr (d1, q1)"
      and r: "kahn_iterate g k (d1, q1, n + 1) = Inr (d', q', n')"
      by (auto split: sum.splits)
    have "kahn_loop g d (c # q0) n = kahn_loop g d1 q1 (n + 1)"
      using b by (subst kahn_loop_unfold) simp
    then show ?thesis using Suc.IH[OF r] Cons by simp
  qed
qed

lemma iterate_refines:
  assumes "kahn_inv V E g d q P" "agrees d deg" "\<forall>u\<in>V. adj u = succs E u"
  shows "\<exists>d' deg' q' n' P'.
           kahn_iterate g k (d, q, n) = Inr (d', q', n') \<and>
           spec_iterate adj k (deg, q, n) = (deg', q', n') \<and>
           agrees d' deg' \<and> kahn_inv V E g d' q' P'"
  using assms
proof (induction k arbitrary: d q P deg n)
  case 0
  have "kahn_iterate g 0 (d, q, n) = Inr (d, q, n) \<and>
        spec_iterate adj 0 (deg, q, n) = (deg, q, n) \<and> agrees d deg \<and> kahn_inv V E g d q P"
    using "0.prems" by simp
  then show ?case by (intro exI)
next
  case (Suc k)
  show ?case
  proof (cases q)
    case Nil
    have "kahn_iterate g (Suc k) (d, q, n) = Inr (d, q, n) \<and>
        spec_iterate adj (Suc k) (deg, q, n) = (deg, q, n) \<and> agrees d deg \<and>
        kahn_inv V E g d q P"
      using Suc.prems Nil by simp
    then show ?thesis by (intro exI)
  next
    case (Cons c q0)
    from kahn_inv_step[OF Suc.prems(1)[unfolded Cons]] obtain d1 q1 where
      cV: "c \<in> V" and g: "dict_get g c = Inr (succs E c)"
      and r: "reduce_neighbors (succs E c) (d, q0) = Inr (d1, q1)"
      and inv1: "kahn_inv V E g d1 q1 (insert c P)"
      by blast
    from visit_refines[OF Suc.prems(2) r] obtain deg1 where
      v: "spec_visit (succs E c) (deg, q0) = (deg1, q1)" and ag1: "agrees d1 deg1" by blast
    have a: "adj c = succs E c" using Suc.prems(3) cV by simp
    have b: "loop_body g c (d, q0) = Inr (d1, q1)" using g r by (simp add: loop_body_def)
    have s1: "kahn_iterate g (Suc k) (d, q, n) = kahn_iterate g k (d1, q1, n + 1)"
      using b Cons by simp
    have s2: "spec_iterate adj (Suc k) (deg, q, n) = spec_iterate adj k (deg1, q1, n + 1)"
      using a v Cons by simp
    show ?thesis unfolding s1 s2 by (rule Suc.IH[OF inv1 ag1 Suc.prems(3)])
  qed
qed

lemma kahn_inv_agrees:
  "kahn_inv V E g d q P \<Longrightarrow> agrees d deg \<Longrightarrow> u \<in> V \<Longrightarrow> map_of d u = Some (deg u)"
  unfolding kahn_inv_def agrees_def by (metis)

lemma start_refines:
  "\<exists>g d. add_edges es (init_nodes ns ([], [])) = Inr (g, d) \<and>
     dict_keys d = spec_node_ids ns \<and>
     (\<forall>u\<in>set (spec_node_ids ns).
        map_of g u = Some (spec_adjacency ns es u) \<and>
        map_of d u = Some (spec_in_degree ns es u)) \<and>
     seed_queue (dict_keys d) d [] = Inr (spec_seed ns es) \<and>
     kahn_inv (node_id ` set ns) (valid_edges ns es) g d (spec_seed ns es) {} \<and>
     agrees d (spec_in_degree ns es)"
proof -
  let ?V = "node_id ` set ns"
  let ?E = "valid_edges ns es"
  from build_ok[of es ns] obtain g d where
    a: "add_edges es (init_nodes ns ([], [])) = Inr (g, d)"
    and k: "dict_keys d = spec_node_ids ns" and dm: "dom (map_of d) = ?V"
    and di: "distinct (dict_keys d)"
    and G: "\<forall>u\<in>?V. map_of g u = Some (succs ?E u)"
    and D: "\<forall>v\<in>?V. map_of d v = Some (int (remaining ?E {} v))"
    apply (elim exE conjE)
    subgoal premises p for g d using p(2-) by (rule p(1))
    done
  let ?q = "[k \<leftarrow> dict_keys d. map_of d k = Some 0]"
  note st = start_inv[OF k dm di G D]
  have ag: "agrees d (spec_in_degree ns es)"
    unfolding agrees_def
  proof (intro allI impI)
    fix v c assume m: "map_of d v = Some c"
    then have "v \<in> ?V" using dm by blast
    then have "c = int (remaining ?E {} v)" using bspec[OF D, of v] m by simp
    then show "spec_in_degree ns es v = c"
      by (simp add: spec_in_degree_indeg_of remaining_valid_edges)
  qed
  have GD: "\<forall>u\<in>set (spec_node_ids ns).
        map_of g u = Some (spec_adjacency ns es u) \<and>
        map_of d u = Some (spec_in_degree ns es u)"
  proof
    fix u assume "u \<in> set (spec_node_ids ns)"
    then have u: "u \<in> ?V" by (simp add: set_spec_node_ids)
    show "map_of g u = Some (spec_adjacency ns es u) \<and>
        map_of d u = Some (spec_in_degree ns es u)"
      using bspec[OF G u] bspec[OF D u]
      by (simp add: spec_adjacency_adj_of succs_valid_edges spec_in_degree_indeg_of
          remaining_valid_edges)
  qed
  have q: "?q = spec_seed ns es"
    unfolding k spec_seed_def
  proof (rule filter_cong[OF refl])
    fix v assume "v \<in> set (spec_node_ids ns)"
    then show "(map_of d v = Some 0) = (spec_in_degree ns es v = 0)"
      using bspec[OF GD, of v] by simp
  qed
  have "add_edges es (init_nodes ns ([], [])) = Inr (g, d) \<and>
     dict_keys d = spec_node_ids ns \<and>
     (\<forall>u\<in>set (spec_node_ids ns).
        map_of g u = Some (spec_adjacency ns es u) \<and>
        map_of d u = Some (spec_in_degree ns es u)) \<and>
     seed_queue (dict_keys d) d [] = Inr (spec_seed ns es) \<and>
     kahn_inv (node_id ` set ns) (valid_edges ns es) g d (spec_seed ns es) {} \<and>
     agrees d (spec_in_degree ns es)"
    using a k GD st ag unfolding q by simp
  then show ?thesis by (intro exI)
qed

section \<open>Properties of the checker and of the analysis operation\<close>




text \<open>
  Claim C2. For every request the operation succeeds, and in its payload \<open>num_nodes\<close> is
  the length of the node list and \<open>num_edges\<close> the length of the edge list, whatever the
  graph is (duplicate ids and dangling edges included).
\<close>

theorem parse_pipeline_counts:
  "\<exists>b. parse_pipeline repr p =
     Some (Inr \<lparr>num_nodes = length (nodes p), num_edges = length (edges p), is_dag = b\<rparr>)"
proof -
  from check_dag_total[of "nodes p" "edges p"] obtain b where
    "check_dag (nodes p) (edges p) = Some (Inr b)" by blast
  then show ?thesis by (simp add: parse_pipeline_def)
qed

text \<open>
  Claim C4. With an empty node list, or with an empty edge list, \<open>check_dag\<close> returns
  true; the guard comes before the construction of the dictionaries, so the answer does
  not come from the elimination. The instance afterwards shows a request on which the
  elimination would count 1 of 2 nodes and the answer is true all the same.
\<close>

theorem trivial_cases_true:
  "ns = [] \<or> es = [] \<Longrightarrow> check_dag ns es = Some (Inr True)"
  by (simp add: check_dag_def)

theorem trivial_cases_true_witness:
  "check_dag ([] :: (unit, unit) Node list) [edge_of ''A'' ''B''] = Some (Inr True) \<and>
   check_dag [node_of ''A'', node_of ''A''] [] = Some (Inr True) \<and>
   kahn_count [node_of ''A'', node_of ''A''] [] = Some (Inr 1)"
proof -
  have "kahn_count [node_of ''A'', node_of ''A''] [] = Some (Inr 1)" by code_simp
  then show ?thesis
    using trivial_cases_true[of "[] :: (unit, unit) Node list" "[edge_of ''A'' ''B'']"]
      trivial_cases_true[of "[node_of ''A'', node_of ''A'']" "[]"]
    by simp
qed

text \<open>
  Claim C5. When two nodes of a request share an id and the edge list is not empty,
  \<open>check_dag\<close> returns false, whether or not the graph has a cycle: the processed counter
  stays below the length of the node list.
\<close>

theorem duplicate_ids_false:
  assumes "\<not> distinct (map node_id ns)" "es \<noteq> []"
  shows "check_dag ns es = Some (Inr False) \<and>
         (\<exists>n. kahn_count ns es = Some (Inr n) \<and> n < length ns)"
proof -
  let ?V = "node_id ` set ns"
  have ne: "ns \<noteq> []" using assms(1) by auto
  from kahn_count_char[of ns es] obtain P where PV: "P \<subseteq> ?V"
    and k: "kahn_count ns es = Some (Inr (card P))" by blast
  have "card P \<le> card ?V" using PV by (simp add: card_mono)
  moreover have "card ?V < length ns"
    using card_length[of "map node_id ns"] card_distinct[of "map node_id ns"] assms(1)
    by (cases "card (set (map node_id ns)) = length (map node_id ns)") auto
  ultimately have "card P < length ns" by simp
  then show ?thesis using k check_dag_char[OF ne assms(2)] assms(1) by auto
qed

theorem duplicate_ids_false_witness:
  "\<not> distinct (map node_id [node_of ''A'', node_of ''B'', node_of ''A'']) \<and>
   [edge_of ''A'' ''B''] \<noteq> [] \<and>
   acyclic (edge_rel [node_of ''A'', node_of ''B'', node_of ''A''] [edge_of ''A'' ''B'']) \<and>
   check_dag [node_of ''A'', node_of ''B'', node_of ''A''] [edge_of ''A'' ''B'']
     = Some (Inr False)"
proof -
  have d: "\<not> distinct (map node_id [node_of ''A'', node_of ''B'', node_of ''A''])"
    by (simp add: node_of_def)
  have e: "[edge_of ''A'' ''B''] \<noteq> []" by simp
  have "edge_rel [node_of ''A'', node_of ''B'', node_of ''A''] [edge_of ''A'' ''B'']
          = {(''A'', ''B'')}"
    by (simp add: edge_rel_def valid_edges_def node_of_def edge_of_def)
  moreover have "acyclic ({} :: (string \<times> string) set)" by (simp add: acyclic_def)
  ultimately have a: "acyclic (edge_rel [node_of ''A'', node_of ''B'', node_of ''A'']
      [edge_of ''A'' ''B''])"
    by (simp add: acyclic_insert)
  from duplicate_ids_false[OF d e] a d show ?thesis by simp
qed



lemma pairs_zip: "map (\<lambda>e. (f e, g e)) xs = zip (map f xs) (map g xs)"
  by (induction xs) auto

lemma edge_rel_cong:
  fixes ns :: "('p, 'd) Node list" and ns' :: "('q, 'e) Node list"
  assumes "map node_id ns = map node_id ns'" "map source es = map source es'"
    "map target es = map target es'"
  shows "edge_rel ns es = edge_rel ns' es'"
  unfolding edge_rel_def valid_edges_pairs pairs_zip using assms by simp




text \<open>
  Claim C7. The code runs the reference procedure of the specification, state by state.
  The dictionaries it builds hold the adjacency and the in-degree of the reference, with
  the keys in insertion order, and its queue is seeded with the same list in the same
  order. After any number \<open>k\<close> of iterations the code and the reference have the same
  queue (same elements, same order) and the same processed counter, the in-degrees agree
  on every node id, and the \<^verbatim>\<open>while\<close> loop continued from that state gives the result of
  the code. The \<^verbatim>\<open>while\<close> loop removes the front of the queue, runs \<open>loop_body\<close> and
  increments the counter. Hence the final counter and the answer are those of the
  reference.
\<close>

theorem checker_refines_reference:
  "(\<exists>graph in_degree.
      add_edges es (init_nodes ns ([], [])) = Inr (graph, in_degree) \<and>
      dict_keys in_degree = spec_node_ids ns \<and>
      (\<forall>u\<in>set (spec_node_ids ns).
         map_of graph u = Some (spec_adjacency ns es u) \<and>
         map_of in_degree u = Some (spec_in_degree ns es u)) \<and>
      seed_queue (dict_keys in_degree) in_degree [] = Inr (spec_seed ns es) \<and>
      (\<forall>k. \<exists>d deg q n.
         kahn_iterate graph k (in_degree, spec_seed ns es, 0) = Inr (d, q, n) \<and>
         spec_iterate (spec_adjacency ns es) k (spec_in_degree ns es, spec_seed ns es, 0)
           = (deg, q, n) \<and>
         (\<forall>u\<in>set (spec_node_ids ns). map_of d u = Some (deg u)) \<and>
         kahn_loop graph d q n = kahn_count ns es)) \<and>
   kahn_loop g0 d0 q0 n0 =
     (case q0 of
        [] \<Rightarrow> Some (Inr n0)
      | current # queue' \<Rightarrow>
          (case loop_body g0 current (d0, queue') of
             Inl e \<Rightarrow> Some (Inl e)
           | Inr (in_degree', queue'') \<Rightarrow> kahn_loop g0 in_degree' queue'' (n0 + 1))) \<and>
   kahn_count ns es = map_option Inr (spec_processed ns es) \<and>
   check_dag ns es = map_option Inr (spec_is_dag ns es)"
proof (intro conjI)
  let ?V = "node_id ` set ns"
  let ?E = "valid_edges ns es"
  from start_refines[of es ns] obtain g d where
    a: "add_edges es (init_nodes ns ([], [])) = Inr (g, d)"
    and k: "dict_keys d = spec_node_ids ns"
    and GD: "\<forall>u\<in>set (spec_node_ids ns).
        map_of g u = Some (spec_adjacency ns es u) \<and>
        map_of d u = Some (spec_in_degree ns es u)"
    and s: "seed_queue (dict_keys d) d [] = Inr (spec_seed ns es)"
    and inv: "kahn_inv ?V ?E g d (spec_seed ns es) {}"
    and ag: "agrees d (spec_in_degree ns es)"
    apply (elim exE conjE)
    subgoal premises p for g d using p(2-) by (rule p(1))
    done
  have ad: "\<forall>u\<in>?V. spec_adjacency ns es u = succs ?E u"
    by (simp add: spec_adjacency_adj_of succs_valid_edges)
  have kc: "kahn_count ns es = kahn_loop g d (spec_seed ns es) 0"
    unfolding kahn_count_def using a s by simp
  have steps: "\<exists>d' deg q n.
         kahn_iterate g k (d, spec_seed ns es, 0) = Inr (d', q, n) \<and>
         spec_iterate (spec_adjacency ns es) k (spec_in_degree ns es, spec_seed ns es, 0)
           = (deg, q, n) \<and>
         (\<forall>u\<in>set (spec_node_ids ns). map_of d' u = Some (deg u)) \<and>
         kahn_loop g d' q n = kahn_count ns es" for k
  proof -
    from iterate_refines[OF inv ag ad, of k 0] obtain d' deg q n P' where
      i1: "kahn_iterate g k (d, spec_seed ns es, 0) = Inr (d', q, n)"
      and i2: "spec_iterate (spec_adjacency ns es) k (spec_in_degree ns es, spec_seed ns es, 0)
           = (deg, q, n)"
      and ag': "agrees d' deg" and inv': "kahn_inv ?V ?E g d' q P'"
      apply (elim exE conjE)
      subgoal premises p for d' deg q n P' using p(2-) by (rule p(1))
      done
    have m: "\<forall>u\<in>set (spec_node_ids ns). map_of d' u = Some (deg u)"
      using kahn_inv_agrees[OF inv' ag'] by (simp add: set_spec_node_ids)
    have l: "kahn_loop g d' q n = kahn_count ns es"
      using kahn_loop_iterate[OF i1] kc by simp
    have "kahn_iterate g k (d, spec_seed ns es, 0) = Inr (d', q, n) \<and>
         spec_iterate (spec_adjacency ns es) k (spec_in_degree ns es, spec_seed ns es, 0)
           = (deg, q, n) \<and>
         (\<forall>u\<in>set (spec_node_ids ns). map_of d' u = Some (deg u)) \<and>
         kahn_loop g d' q n = kahn_count ns es"
      using i1 i2 m l by simp
    then show ?thesis by (intro exI)
  qed
  have "add_edges es (init_nodes ns ([], [])) = Inr (g, d) \<and>
      dict_keys d = spec_node_ids ns \<and>
      (\<forall>u\<in>set (spec_node_ids ns).
         map_of g u = Some (spec_adjacency ns es u) \<and>
         map_of d u = Some (spec_in_degree ns es u)) \<and>
      seed_queue (dict_keys d) d [] = Inr (spec_seed ns es) \<and>
      (\<forall>k. \<exists>d' deg q n.
         kahn_iterate g k (d, spec_seed ns es, 0) = Inr (d', q, n) \<and>
         spec_iterate (spec_adjacency ns es) k (spec_in_degree ns es, spec_seed ns es, 0)
           = (deg, q, n) \<and>
         (\<forall>u\<in>set (spec_node_ids ns). map_of d' u = Some (deg u)) \<and>
         kahn_loop g d' q n = kahn_count ns es)"
    using a k GD s steps by (intro conjI allI)
  then show "\<exists>graph in_degree.
      add_edges es (init_nodes ns ([], [])) = Inr (graph, in_degree) \<and>
      dict_keys in_degree = spec_node_ids ns \<and>
      (\<forall>u\<in>set (spec_node_ids ns).
         map_of graph u = Some (spec_adjacency ns es u) \<and>
         map_of in_degree u = Some (spec_in_degree ns es u)) \<and>
      seed_queue (dict_keys in_degree) in_degree [] = Inr (spec_seed ns es) \<and>
      (\<forall>k. \<exists>d deg q n.
         kahn_iterate graph k (in_degree, spec_seed ns es, 0) = Inr (d, q, n) \<and>
         spec_iterate (spec_adjacency ns es) k (spec_in_degree ns es, spec_seed ns es, 0)
           = (deg, q, n) \<and>
         (\<forall>u\<in>set (spec_node_ids ns). map_of d u = Some (deg u)) \<and>
         kahn_loop graph d q n = kahn_count ns es)"
    by (intro exI)
next
  show "kahn_loop g0 d0 q0 n0 =
     (case q0 of
        [] \<Rightarrow> Some (Inr n0)
      | current # queue' \<Rightarrow>
          (case loop_body g0 current (d0, queue') of
             Inl e \<Rightarrow> Some (Inl e)
           | Inr (in_degree', queue'') \<Rightarrow> kahn_loop g0 in_degree' queue'' (n0 + 1)))"
    by (rule kahn_loop_unfold)
next
  show "kahn_count ns es = map_option Inr (spec_processed ns es)"
    by (rule kahn_count_refines)
next
  show "check_dag ns es = map_option Inr (spec_is_dag ns es)"
    unfolding check_dag_def spec_is_dag_def kahn_count_refines
    by (cases "spec_processed ns es") simp_all
qed

theorem checker_refines_reference_witness:
  "\<exists>graph in_degree d.
     add_edges [edge_of ''A'' ''C'', edge_of ''A'' ''D'']
       (init_nodes [node_of ''A'', node_of ''B'', node_of ''C'', node_of ''D''] ([], []))
       = Inr (graph, in_degree) \<and>
     seed_queue (dict_keys in_degree) in_degree [] = Inr [''A'', ''B''] \<and>
     kahn_iterate graph 1 (in_degree, [''A'', ''B''], 0) = Inr (d, [''B'', ''C'', ''D''], 1) \<and>
     kahn_count [node_of ''A'', node_of ''B'', node_of ''C'', node_of ''D'']
       [edge_of ''A'' ''C'', edge_of ''A'' ''D''] = Some (Inr 4) \<and>
     spec_processed [node_of ''A'', node_of ''B'', node_of ''C'', node_of ''D'']
       [edge_of ''A'' ''C'', edge_of ''A'' ''D''] = Some 4"
proof -
  let ?ns = "[node_of ''A'', node_of ''B'', node_of ''C'', node_of ''D'']"
  let ?es = "[edge_of ''A'' ''C'', edge_of ''A'' ''D'']"
  note t = checker_refines_reference[where ns = ?ns and es = ?es]
  have seed: "spec_seed ?ns ?es = [''A'', ''B'']" by code_simp
  have q1: "fst (snd (spec_iterate (spec_adjacency ?ns ?es) 1
              (spec_in_degree ?ns ?es, [''A'', ''B''], 0))) = [''B'', ''C'', ''D'']"
    by code_simp
  have n1: "snd (snd (spec_iterate (spec_adjacency ?ns ?es) 1
              (spec_in_degree ?ns ?es, [''A'', ''B''], 0))) = 1"
    by code_simp
  have kc: "kahn_count ?ns ?es = Some (Inr 4)" by code_simp
  have "kahn_count ?ns ?es = map_option Inr (spec_processed ?ns ?es)"
    by (rule t[THEN conjunct2, THEN conjunct2, THEN conjunct1])
  then have "map_option Inr (spec_processed ?ns ?es) = Some (Inr 4 :: exception + nat)"
    using kc by simp
  then have sp: "spec_processed ?ns ?es = Some 4"
    by (cases "spec_processed ?ns ?es") simp_all
  from t[THEN conjunct1] obtain graph in_degree where
    a: "add_edges ?es (init_nodes ?ns ([], [])) = Inr (graph, in_degree)"
    and s: "seed_queue (dict_keys in_degree) in_degree [] = Inr (spec_seed ?ns ?es)"
    and steps: "\<forall>k. \<exists>d deg q n.
         kahn_iterate graph k (in_degree, spec_seed ?ns ?es, 0) = Inr (d, q, n) \<and>
         spec_iterate (spec_adjacency ?ns ?es) k (spec_in_degree ?ns ?es, spec_seed ?ns ?es, 0)
           = (deg, q, n) \<and>
         (\<forall>u\<in>set (spec_node_ids ?ns). map_of d u = Some (deg u)) \<and>
         kahn_loop graph d q n = kahn_count ?ns ?es"
    apply (elim exE conjE)
    subgoal premises p for graph in_degree by (rule p(1)[OF p(2) p(5) p(6)])
    done
  from spec[OF steps, of 1] obtain d deg q n where
    i1: "kahn_iterate graph 1 (in_degree, spec_seed ?ns ?es, 0) = Inr (d, q, n)"
    and i2: "spec_iterate (spec_adjacency ?ns ?es) 1
               (spec_in_degree ?ns ?es, spec_seed ?ns ?es, 0) = (deg, q, n)"
    apply (elim exE conjE)
    subgoal premises p for d deg q n by (rule p(1)[OF p(2) p(3)])
    done
  have "q = [''B'', ''C'', ''D'']" "n = 1" using i2 q1 n1 unfolding seed by simp_all
  then have "add_edges ?es (init_nodes ?ns ([], [])) = Inr (graph, in_degree) \<and>
     seed_queue (dict_keys in_degree) in_degree [] = Inr [''A'', ''B''] \<and>
     kahn_iterate graph 1 (in_degree, [''A'', ''B''], 0) = Inr (d, [''B'', ''C'', ''D''], 1) \<and>
     kahn_count ?ns ?es = Some (Inr 4) \<and> spec_processed ?ns ?es = Some 4"
    using a s i1 kc sp unfolding seed by simp
  then show ?thesis by (intro exI)
qed

text \<open>
  Claim C8. Two requests with the same sequence of node ids and the same sequences of
  edge sources and targets get the same answer, whatever their node types, positions,
  data, edge ids and handles are (the types of position and data may differ too).
\<close>

theorem check_dag_ignores_opaque_fields:
  fixes ns :: "('p, 'd) Node list" and ns' :: "('q, 'e) Node list"
  assumes "map node_id ns = map node_id ns'" "map source es = map source es'"
    "map target es = map target es'"
  shows "check_dag ns es = check_dag ns' es'"
proof -
  have n: "ns = [] \<longleftrightarrow> ns' = []" using assms(1) by (metis map_is_Nil_conv)
  have e: "es = [] \<longleftrightarrow> es' = []" using assms(2) by (metis map_is_Nil_conv)
  have l: "length ns = length ns'" using assms(1) by (metis length_map)
  show ?thesis
  proof (cases "ns = [] \<or> es = []")
    case True
    then show ?thesis using n e by (auto simp: check_dag_def)
  next
    case False
    then have "ns \<noteq> []" "es \<noteq> []" "ns' \<noteq> []" "es' \<noteq> []" using n e by auto
    then show ?thesis
      using check_dag_char[of ns es] check_dag_char[of ns' es'] edge_rel_cong[OF assms] assms(1)
      by simp
  qed
qed

theorem check_dag_ignores_opaque_fields_witness:
  "check_dag
     [\<lparr>node_id = ''A'', node_type = ''llm'', position = (3 :: int, 4 :: int), data = [''x'']\<rparr>,
      \<lparr>node_id = ''B'', node_type = ''text'', position = (0, 7), data = []\<rparr>]
     [\<lparr>edge_id = ''e1'', source = ''A'', target = ''B'', sourceHandle = Some ''out'',
       targetHandle = Some ''in''\<rparr>]
   = check_dag [node_of ''A'', node_of ''B''] [edge_of ''A'' ''B'']"
  using check_dag_ignores_opaque_fields[of
     "[\<lparr>node_id = ''A'', node_type = ''llm'', position = (3 :: int, 4 :: int), data = [''x'']\<rparr>,
      \<lparr>node_id = ''B'', node_type = ''text'', position = (0, 7), data = []\<rparr>]"
     "[node_of ''A'', node_of ''B'']"
     "[\<lparr>edge_id = ''e1'', source = ''A'', target = ''B'', sourceHandle = Some ''out'',
       targetHandle = Some ''in''\<rparr>]"
     "[edge_of ''A'' ''B'']"]
  by (simp add: node_of_def edge_of_def)

text \<open>
  Claim C10. On every node list and edge list the checker ends and returns a value, and
  the \<^verbatim>\<open>while\<close> loop runs at most once per distinct node id (the processed counter counts
  its iterations).
\<close>

theorem check_dag_terminates:
  "(\<exists>b. check_dag ns es = Some (Inr b)) \<and>
   (\<exists>n. kahn_count ns es = Some (Inr n) \<and> n \<le> card (node_id ` set ns))"
proof
  show "\<exists>b. check_dag ns es = Some (Inr b)" by (rule check_dag_total)
  from kahn_count_char[of ns es] obtain P where PV: "P \<subseteq> node_id ` set ns"
    and k: "kahn_count ns es = Some (Inr (card P))" by blast
  have "card P \<le> card (node_id ` set ns)" using PV by (simp add: card_mono)
  then show "\<exists>n. kahn_count ns es = Some (Inr n) \<and> n \<le> card (node_id ` set ns)"
    using k by simp
qed

end
